theory Spec2Isabelle
  imports Complex_Main "HOL-Library.Sublist"
begin

section \<open>Strings\<close>

text \<open>
  JavaScript strings are modelled as \<open>string\<close> (lists of 8-bit characters, read as
  ASCII code units). \<open>toLowerCase\<close> lowers the letters A to Z and \<open>trim\<close> strips
  the ASCII white space (tab, line feed, vertical tab, form feed, carriage return,
  space) at both ends.
\<close>

definition lowerChar :: "char \<Rightarrow> char" where
  "lowerChar c =
     (let n = (of_char c :: nat)
      in if 65 \<le> n \<and> n \<le> 90 then char_of (n + 32) else c)"

definition toLowerCase :: "string \<Rightarrow> string" where
  "toLowerCase s = map lowerChar s"

definition isSpace :: "char \<Rightarrow> bool" where
  "isSpace c = ((of_char c :: nat) \<in> {9, 10, 11, 12, 13, 32})"

definition trim :: "string \<Rightarrow> string" where
  "trim s = rev (dropWhile isSpace (rev (dropWhile isSpace s)))"

text \<open>\<open>a.slice(i, j)\<close> for indices that are not negative.\<close>

definition slice :: "'a list \<Rightarrow> nat \<Rightarrow> nat \<Rightarrow> 'a list" where
  "slice a i j = take (j - i) (drop i a)"

text \<open>
  \<open>hay.indexOf(needle, from)\<close>: the least position at or after \<open>from\<close> where
  \<open>needle\<close> starts, \<open>None\<close> for the result \<open>-1\<close>.
\<close>

fun findAt :: "'a list \<Rightarrow> 'a list \<Rightarrow> nat \<Rightarrow> nat option" where
  "findAt needle [] i = (if needle = [] then Some i else None)"
| "findAt needle (h # hs) i =
     (if prefix needle (h # hs) then Some i else findAt needle hs (Suc i))"

definition indexOf :: "'a list \<Rightarrow> 'a list \<Rightarrow> nat \<Rightarrow> nat option" where
  "indexOf hay needle from =
     (let k = min from (length hay) in findAt needle (drop k hay) k)"

text \<open>The two counting loops of \<open>commonSuffixLength\<close> and \<open>commonPrefixLength\<close>.\<close>

function suffixLoop :: "'a list \<Rightarrow> 'a list \<Rightarrow> nat \<Rightarrow> nat" where
  "suffixLoop a b i =
     (if i < min (length a) (length b)
      then (if a ! (length a - 1 - i) \<noteq> b ! (length b - 1 - i) then i
            else suffixLoop a b (i + 1))
      else i)"
  by pat_completeness auto
termination
  by (relation "measure (\<lambda>(a, b, i). min (length a) (length b) - i)") auto

definition commonSuffixLength :: "'a list \<Rightarrow> 'a list \<Rightarrow> nat" where
  "commonSuffixLength a b = suffixLoop a b 0"

function prefixLoop :: "'a list \<Rightarrow> 'a list \<Rightarrow> nat \<Rightarrow> nat" where
  "prefixLoop a b i =
     (if i < min (length a) (length b)
      then (if a ! i \<noteq> b ! i then i else prefixLoop a b (i + 1))
      else i)"
  by pat_completeness auto
termination
  by (relation "measure (\<lambda>(a, b, i). min (length a) (length b) - i)") auto

definition commonPrefixLength :: "'a list \<Rightarrow> 'a list \<Rightarrow> nat" where
  "commonPrefixLength a b = prefixLoop a b 0"

section \<open>The document\<close>

text \<open>
  A DOM subtree: a text node with its \<open>nodeValue\<close>, or an element with its tag name
  (lower case), its class list, its \<open>data-rc-quote-id\<close> attribute and its children.
  The document is the element the tree walker starts from (\<open>document.body\<close>). A node
  is addressed by its path from that root: the list of child indices.
\<close>

datatype dom =
    TextNode string
  | Element string "string list" "string option" "dom list"

type_synonym path = "nat list"

text \<open>
  A text node as the tree walker hands it to the scan: its address, its
  \<open>nodeValue\<close> and the result of \<open>isSkippableNode\<close>.
\<close>

record tnode =
  nodeRef :: path
  nodeValue :: string
  skippable :: bool

definition skipTags :: "string list" where
  "skipTags = [''script'', ''style'', ''textarea'', ''input'', ''select'', ''option'',
     ''noscript'']"

text \<open>
  An element that \<open>closest\<close> stops at in \<open>isSkippableNode\<close>: one of the listed tags,
  or the class \<open>rc-highlight\<close>.
\<close>

fun skipElement :: "dom \<Rightarrow> bool" where
  "skipElement (TextNode v) = False"
| "skipElement (Element t cl a cs) = (t \<in> set skipTags \<or> ''rc-highlight'' \<in> set cl)"

text \<open>
  The walk over \<open>NodeFilter.SHOW_TEXT\<close>: the text nodes below the root in document
  order. \<open>skip\<close> says whether an ancestor element already matches one of the selectors
  of \<open>isSkippableNode\<close>.
\<close>

fun textNodes :: "bool \<Rightarrow> path \<Rightarrow> dom \<Rightarrow> tnode list"
  and textNodesL :: "bool \<Rightarrow> path \<Rightarrow> nat \<Rightarrow> dom list \<Rightarrow> tnode list" where
  "textNodes skip p (TextNode v) = [\<lparr>nodeRef = p, nodeValue = v, skippable = skip\<rparr>]"
| "textNodes skip p (Element t cl a cs) =
     textNodesL (skip \<or> skipElement (Element t cl a cs)) p 0 cs"
| "textNodesL skip p i [] = []"
| "textNodesL skip p i (c # cs) = textNodes skip (p @ [i]) c @ textNodesL skip p (Suc i) cs"

definition walker :: "dom \<Rightarrow> tnode list" where
  "walker doc = (case doc of TextNode v \<Rightarrow> [] | Element t cl a cs \<Rightarrow> textNodes False [] doc)"

section \<open>The Locator\<close>

record entry =
  entryId :: string
  entryText :: string
  contextBefore :: string
  contextAfter :: string

record match =
  mnode :: path
  mstart :: nat
  mend :: nat

text \<open>
  The score of the occurrence of the needle at \<open>idx\<close> of a lower-cased node value,
  and the test of the early return.
\<close>

definition scoreAt :: "string \<Rightarrow> string \<Rightarrow> string \<Rightarrow> nat \<Rightarrow> nat \<Rightarrow> int" where
  "scoreAt before after lower idx end' =
     (let pre = slice lower 0 idx; post = drop end' lower
      in (if before \<noteq> []
          then int (commonSuffixLength pre before) + (if suffix before pre then 50 else 0)
          else 0)
       + (if after \<noteq> []
          then int (commonPrefixLength post after) + (if prefix after post then 50 else 0)
          else 0))"

definition perfectAt :: "string \<Rightarrow> string \<Rightarrow> string \<Rightarrow> nat \<Rightarrow> nat \<Rightarrow> bool" where
  "perfectAt before after lower idx end' =
     ((before \<noteq> [] \<and> suffix before (slice lower 0 idx))
      \<and> (after \<noteq> [] \<and> prefix after (drop end' lower)))"

text \<open>
  How the scan of one text node ends: by the early \<open>return best\<close>, or by leaving the
  inner loop with the current \<open>best\<close> and \<open>bestScore\<close>.
\<close>

datatype scan = Return match | Continue "match option" int

text \<open>
  The inner \<open>while (true)\<close> of \<open>findBestMatchInDocument\<close>, with its variables
  \<open>fromIndex\<close>, \<open>matchCounter\<close>, \<open>best\<close> and \<open>bestScore\<close>. The two counters
  \<open>matchCounter\<close> and \<open>safetyCounter\<close> are integers.
\<close>

function innerLoop ::
  "string \<Rightarrow> nat \<Rightarrow> string \<Rightarrow> string \<Rightarrow> path \<Rightarrow> string \<Rightarrow> nat \<Rightarrow> int
    \<Rightarrow> match option \<Rightarrow> int \<Rightarrow> scan" where
  "innerLoop needleLower needleLen before after nd lower fromIndex matchCounter best bestScore =
     (case indexOf lower needleLower fromIndex of
        None \<Rightarrow> Continue best bestScore
      | Some idx \<Rightarrow>
          if matchCounter + 1 > 250 then Continue best bestScore
          else
            let end' = idx + needleLen;
                score = scoreAt before after lower idx end';
                found = \<lparr>mnode = nd, mstart = idx, mend = end'\<rparr>;
                fromIndex' = idx + max 1 (length needleLower)
            in if score > bestScore
               then (if perfectAt before after lower idx end' then Return found
                     else if fromIndex' \<ge> length lower then Continue (Some found) score
                     else innerLoop needleLower needleLen before after nd lower fromIndex'
                            (matchCounter + 1) (Some found) score)
               else (if fromIndex' \<ge> length lower then Continue best bestScore
                     else innerLoop needleLower needleLen before after nd lower fromIndex'
                            (matchCounter + 1) best bestScore))"
  by pat_completeness auto
termination
  by (relation "measure (\<lambda>(nl, n, b, a, nd, l, f, mc, bst, bs). nat (251 - mc))") auto

text \<open>The outer loop over the walker's nodes, with \<open>safetyCounter\<close>.\<close>

fun walkLoop ::
  "string \<Rightarrow> nat \<Rightarrow> string \<Rightarrow> string \<Rightarrow> tnode list \<Rightarrow> int \<Rightarrow> match option \<Rightarrow> int
    \<Rightarrow> match option" where
  "walkLoop needleLower needleLen before after [] safetyCounter best bestScore = best"
| "walkLoop needleLower needleLen before after (n # ns) safetyCounter best bestScore =
     (if safetyCounter + 1 > 25000 then best
      else if skippable n
        then walkLoop needleLower needleLen before after ns (safetyCounter + 1) best bestScore
      else if nodeValue n = [] \<or> length (nodeValue n) < 3
        then walkLoop needleLower needleLen before after ns (safetyCounter + 1) best bestScore
      else
        (case innerLoop needleLower needleLen before after (nodeRef n)
                (toLowerCase (nodeValue n)) 0 0 best bestScore of
           Return m \<Rightarrow> Some m
         | Continue best' bestScore' \<Rightarrow>
             walkLoop needleLower needleLen before after ns (safetyCounter + 1)
               best' bestScore'))"

definition findBestMatchInDocument :: "entry \<Rightarrow> dom \<Rightarrow> match option" where
  "findBestMatchInDocument e doc =
     (let needle = trim (entryText e)
      in if needle = [] \<or> length needle < 3 then None
         else walkLoop (toLowerCase needle) (length needle)
                (toLowerCase (contextBefore e)) (toLowerCase (contextAfter e))
                (walker doc) 0 None (- 1))"


section \<open>The Highlighter\<close>

text \<open>
  \<open>wrapTextMatch\<close>: the text node at the given address is replaced, among the children
  of its parent, by the text before the match (when not empty), the marker
  \<open>span.rc-highlight\<close> around the match, and the text after it (when not empty).
\<close>

definition fragment :: "string \<Rightarrow> nat \<Rightarrow> nat \<Rightarrow> string \<Rightarrow> dom list" where
  "fragment text start end' quoteId =
     (let before = slice text 0 start;
          matched = slice text start end';
          after = drop end' text;
          span = Element ''span'' [''rc-highlight'']
                   (if quoteId \<noteq> [] then Some quoteId else None)
                   (if matched = [] then [] else [TextNode matched])
      in (if before \<noteq> [] then [TextNode before] else []) @ [span]
         @ (if after \<noteq> [] then [TextNode after] else []))"

fun wrapTextMatch :: "path \<Rightarrow> nat \<Rightarrow> nat \<Rightarrow> string \<Rightarrow> dom \<Rightarrow> dom" where
  "wrapTextMatch [] s e q d = d"
| "wrapTextMatch (i # p) s e q (TextNode v) = TextNode v"
| "wrapTextMatch [i] s e q (Element t cl a cs) =
     (if i < length cs
      then (case cs ! i of
              TextNode v \<Rightarrow> Element t cl a (take i cs @ fragment v s e q @ drop (Suc i) cs)
            | Element t' cl' a' cs' \<Rightarrow> Element t cl a cs)
      else Element t cl a cs)"
| "wrapTextMatch (i # j # p) s e q (Element t cl a cs) =
     (if i < length cs
      then Element t cl a (cs[i := wrapTextMatch (j # p) s e q (cs ! i)])
      else Element t cl a cs)"

text \<open>A marker is what \<open>querySelectorAll("span.rc-highlight")\<close> selects.\<close>

fun isMarker :: "dom \<Rightarrow> bool" where
  "isMarker (TextNode v) = False"
| "isMarker (Element t cl a cs) = (t = ''span'' \<and> ''rc-highlight'' \<in> set cl)"

fun textContent :: "dom \<Rightarrow> string"
  and textContentL :: "dom list \<Rightarrow> string" where
  "textContent (TextNode v) = v"
| "textContent (Element t cl a cs) = textContentL cs"
| "textContentL [] = []"
| "textContentL (c # cs) = textContent c @ textContentL cs"

text \<open>
  What \<open>Node.normalize\<close> does to one list of children: empty text nodes are removed
  and adjacent text nodes are merged.
\<close>

fun normalizeChildren :: "dom list \<Rightarrow> dom list" where
  "normalizeChildren [] = []"
| "normalizeChildren (TextNode x # TextNode y # cs) = normalizeChildren (TextNode (x @ y) # cs)"
| "normalizeChildren (TextNode x # cs) =
     (if x = [] then normalizeChildren cs else TextNode x # normalizeChildren cs)"
| "normalizeChildren (Element t cl a ds # cs) = Element t cl a ds # normalizeChildren cs"

text \<open>
  \<open>clearHighlights\<close>: every marker is replaced by a text node holding its
  \<open>textContent\<close>, and the parent of each marker is normalized, which normalizes the whole
  subtree of that parent. \<open>nrm\<close> says that an ancestor is such a parent. Markers
  inside a marker leave the document with it.
\<close>

fun clearNode :: "bool \<Rightarrow> dom \<Rightarrow> dom"
  and clearChildren :: "bool \<Rightarrow> dom list \<Rightarrow> dom list" where
  "clearNode nrm (TextNode v) = TextNode v"
| "clearNode nrm (Element t cl a cs) =
     (if nrm \<or> list_ex isMarker cs
      then Element t cl a (normalizeChildren (clearChildren True cs))
      else Element t cl a (clearChildren False cs))"
| "clearChildren nrm [] = []"
| "clearChildren nrm (c # cs) =
     (if isMarker c then TextNode (textContent c) else clearNode nrm c)
     # clearChildren nrm cs"

definition clearHighlights :: "dom \<Rightarrow> dom" where
  "clearHighlights doc = clearNode False doc"

text \<open>
  \<open>document.querySelector\<close>: the address of the first element, in document order,
  that satisfies the selector.
\<close>

fun findElement :: "(dom \<Rightarrow> bool) \<Rightarrow> path \<Rightarrow> dom \<Rightarrow> path option"
  and findElementL :: "(dom \<Rightarrow> bool) \<Rightarrow> path \<Rightarrow> nat \<Rightarrow> dom list \<Rightarrow> path option" where
  "findElement sel p (TextNode v) = None"
| "findElement sel p (Element t cl a cs) =
     (if sel (Element t cl a cs) then Some p else findElementL sel p 0 cs)"
| "findElementL sel p i [] = None"
| "findElementL sel p i (c # cs) =
     (case findElement sel (p @ [i]) c of
        Some r \<Rightarrow> Some r
      | None \<Rightarrow> findElementL sel p (Suc i) cs)"

fun hasQuoteId :: "string \<Rightarrow> dom \<Rightarrow> bool" where
  "hasQuoteId q (TextNode v) = False"
| "hasQuoteId q (Element t cl a cs) = (''rc-highlight'' \<in> set cl \<and> a = Some q)"

definition findHighlightSpanById :: "string \<Rightarrow> dom \<Rightarrow> path option" where
  "findHighlightSpanById ident doc =
     (let quoteId = trim ident
      in if quoteId = [] then None else findElement (hasQuoteId quoteId) [] doc)"

fun hasText :: "string \<Rightarrow> dom \<Rightarrow> bool" where
  "hasText needle (TextNode v) = False"
| "hasText needle (Element t cl a cs) =
     (''rc-highlight'' \<in> set cl \<and> toLowerCase (trim (textContentL cs)) = needle)"

definition findHighlightSpanForText :: "string \<Rightarrow> dom \<Rightarrow> path option" where
  "findHighlightSpanForText text doc =
     (let needle = toLowerCase (trim text)
      in if needle = [] then None else findElement (hasText needle) [] doc)"

text \<open>
  \<open>highlightEntry\<close> returns the document after the wrap and the marker it looked up
  afterwards (\<open>None\<close> for \<open>null\<close>).
\<close>

definition highlightEntry :: "entry \<Rightarrow> dom \<Rightarrow> dom \<times> path option" where
  "highlightEntry e doc =
     (let quoteId = entryId e
      in case findBestMatchInDocument e doc of
           None \<Rightarrow> (doc, None)
         | Some m \<Rightarrow>
             let doc' = wrapTextMatch (mnode m) (mstart m) (mend m) quoteId doc
             in (doc', if quoteId \<noteq> [] then findHighlightSpanById quoteId doc'
                       else findHighlightSpanForText (entryText e) doc'))"

text \<open>
  The entries \<open>applyHighlights\<close> works on: trimmed, filtered, sorted by descending text
  length (\<open>Array.prototype.sort\<close> is stable) and cut to the first 50.
\<close>

definition normalizedQuotes :: "entry list \<Rightarrow> entry list" where
  "normalizedQuotes quotes =
     take 50
       (sort_key (\<lambda>q. - int (length (entryText q)))
          (filter (\<lambda>q. length (entryText q) \<ge> 3)
             (map (\<lambda>q. q\<lparr>entryText := trim (entryText q)\<rparr>) quotes)))"

definition applyHighlights :: "entry list \<Rightarrow> dom \<Rightarrow> dom" where
  "applyHighlights quotes doc =
     foldl (\<lambda>d e. fst (highlightEntry e d)) (clearHighlights doc) (normalizedQuotes quotes)"

section \<open>Refreshing and scrolling to a quote\<close>

text \<open>
  The state of the content script that these operations read and write: the document
  and the two variables of the guard.
\<close>

record page =
  document :: dom
  lastHighlightUrl :: string
  lastHighlightSignature :: string

definition digitChar :: "nat \<Rightarrow> char" where
  "digitChar d = char_of (48 + d)"

function showNat :: "nat \<Rightarrow> string" where
  "showNat n = (if n < 10 then [digitChar n] else showNat (n div 10) @ [digitChar (n mod 10)])"
  by pat_completeness auto
termination
  by (relation "measure (\<lambda>n. n)") auto

fun joinWith :: "string \<Rightarrow> string list \<Rightarrow> string" where
  "joinWith sep [] = []"
| "joinWith sep [x] = x"
| "joinWith sep (x # y # ys) = x @ sep @ joinWith sep (y # ys)"

definition signature :: "entry list \<Rightarrow> string" where
  "signature quotes =
     joinWith ''|'' (map (\<lambda>q. entryId q @ '':'' @ showNat (length (entryText q))) quotes)"

text \<open>
  \<open>refreshHighlights\<close>. \<open>url\<close> is the result of \<open>normalizeUrl(location.href)\<close>
  (\<open>None\<close> for \<open>null\<close>); \<open>res\<close> is the answer to \<open>getQuotesForUrl\<close>: \<open>None\<close> when the
  message fails or the answer is not \<open>ok\<close>, the quotes otherwise.
\<close>

definition refreshHighlights :: "string option \<Rightarrow> entry list option \<Rightarrow> page \<Rightarrow> page" where
  "refreshHighlights url res pg =
     (case url of
        None \<Rightarrow> pg
      | Some u \<Rightarrow>
          (case res of
             None \<Rightarrow> pg
           | Some quotes \<Rightarrow>
               let sig = signature quotes
               in if lastHighlightUrl pg = u \<and> lastHighlightSignature pg = sig then pg
                  else pg\<lparr>document := applyHighlights quotes (document pg),
                          lastHighlightUrl := u, lastHighlightSignature := sig\<rparr>))"

text \<open>
  \<open>scrollToQuote\<close> returns the state and the element it scrolls into view
  (\<open>None\<close>: it returns without scrolling).
\<close>

definition scrollToQuote ::
  "string option \<Rightarrow> entry list option \<Rightarrow> entry \<Rightarrow> page \<Rightarrow> page \<times> path option" where
  "scrollToQuote url res payload pg =
     (let quoteId = entryId payload;
          needle = trim (entryText payload)
      in if needle = [] then (pg, None)
         else
           let el1 = (if quoteId \<noteq> [] then findHighlightSpanById quoteId (document pg)
                      else None);
               pg2 = (if el1 = None then refreshHighlights url res pg else pg);
               el2 = (if el1 = None
                      then (if quoteId \<noteq> [] then findHighlightSpanById quoteId (document pg2)
                            else None)
                      else el1);
               el3 = (if el2 = None then findHighlightSpanForText needle (document pg2)
                      else el2)
           in if el3 = None
              then (let r = highlightEntry payload (document pg2)
                    in (pg2\<lparr>document := fst r\<rparr>, snd r))
              else (pg2, el3))"

section \<open>The Progress Tracker\<close>









section \<open>The background handler of pageProgress\<close>











section \<open>The occurrences a scan visits\<close>

text \<open>
  For the statements below: the positions the inner loop visits in one lower-cased node
  value, each position with its match, score and early-return test, and the way the two
  loops chooseBest among them.
\<close>

function nodeHits :: "string \<Rightarrow> string \<Rightarrow> nat \<Rightarrow> int \<Rightarrow> nat list" where
  "nodeHits needleLower lower fromIndex matchCounter =
     (case indexOf lower needleLower fromIndex of
        None \<Rightarrow> []
      | Some idx \<Rightarrow>
          if matchCounter + 1 > 250 then []
          else idx #
            (if idx + max 1 (length needleLower) \<ge> length lower then []
             else nodeHits needleLower lower (idx + max 1 (length needleLower))
                    (matchCounter + 1)))"
  by pat_completeness auto
termination
  by (relation "measure (\<lambda>(nl, l, f, mc). nat (251 - mc))") auto

record cand =
  cmatch :: match
  cscore :: int
  cperfect :: bool

definition candAt :: "nat \<Rightarrow> string \<Rightarrow> string \<Rightarrow> path \<Rightarrow> string \<Rightarrow> nat \<Rightarrow> cand" where
  "candAt needleLen before after nd lower idx =
     \<lparr>cmatch = \<lparr>mnode = nd, mstart = idx, mend = idx + needleLen\<rparr>,
      cscore = scoreAt before after lower idx (idx + needleLen),
      cperfect = perfectAt before after lower idx (idx + needleLen)\<rparr>"

definition nodeCandidates :: "string \<Rightarrow> nat \<Rightarrow> string \<Rightarrow> string \<Rightarrow> tnode \<Rightarrow> cand list" where
  "nodeCandidates needleLower needleLen before after n =
     (if skippable n \<or> length (nodeValue n) < 3 then []
      else map (candAt needleLen before after (nodeRef n) (toLowerCase (nodeValue n)))
             (nodeHits needleLower (toLowerCase (nodeValue n)) 0 0))"

definition candidates :: "entry \<Rightarrow> dom \<Rightarrow> cand list" where
  "candidates e doc =
     concat (map (nodeCandidates (toLowerCase (trim (entryText e))) (length (trim (entryText e)))
                    (toLowerCase (contextBefore e)) (toLowerCase (contextAfter e)))
               (take 25000 (walker doc)))"

fun chooseBest :: "cand list \<Rightarrow> match option \<Rightarrow> int \<Rightarrow> scan" where
  "chooseBest [] best bestScore = Continue best bestScore"
| "chooseBest (c # cs) best bestScore =
     (if cscore c > bestScore
      then (if cperfect c then Return (cmatch c) else chooseBest cs (Some (cmatch c)) (cscore c))
      else chooseBest cs best bestScore)"

fun outcome :: "scan \<Rightarrow> match option" where
  "outcome (Return m) = Some m"
| "outcome (Continue best bestScore) = best"

text \<open>The highest score an occurrence can have for the given contexts.\<close>

definition maxScore :: "string \<Rightarrow> string \<Rightarrow> int" where
  "maxScore before after =
     (if before \<noteq> [] then int (length before) + 50 else 0)
     + (if after \<noteq> [] then int (length after) + 50 else 0)"






text \<open>Markers and documents, for the statements about the Highlighter.\<close>

fun markerIds :: "dom \<Rightarrow> string option list"
  and markerIdsL :: "dom list \<Rightarrow> string option list" where
  "markerIds (TextNode v) = []"
| "markerIds (Element t cl a cs) =
     (if isMarker (Element t cl a cs) then [a] else []) @ markerIdsL cs"
| "markerIdsL [] = []"
| "markerIdsL (c # cs) = markerIds c @ markerIdsL cs"

text \<open>
  No marker inside a marker: \<open>inside\<close> says that an ancestor is a marker.
\<close>

fun markersFlat :: "bool \<Rightarrow> dom \<Rightarrow> bool"
  and markersFlatL :: "bool \<Rightarrow> dom list \<Rightarrow> bool" where
  "markersFlat inside (TextNode v) = True"
| "markersFlat inside (Element t cl a cs) =
     (if isMarker (Element t cl a cs) then \<not> inside \<and> markersFlatL True cs
      else markersFlatL inside cs)"
| "markersFlatL inside [] = True"
| "markersFlatL inside (c # cs) = (markersFlat inside c \<and> markersFlatL inside cs)"

text \<open>A document in which \<open>normalize\<close> would change nothing.\<close>

fun normalDom :: "dom \<Rightarrow> bool"
  and normalDomL :: "dom list \<Rightarrow> bool" where
  "normalDom (TextNode v) = True"
| "normalDom (Element t cl a cs) = (normalizeChildren cs = cs \<and> normalDomL cs)"
| "normalDomL [] = True"
| "normalDomL (c # cs) = (normalDom c \<and> normalDomL cs)"

section \<open>Needles that are too short\<close>



section \<open>Verification: the progress round trip\<close>















section \<open>Verification: the pageProgress handler\<close>








section \<open>Verification: the signature guard\<close>







section \<open>Verification: the Locator\<close>

declare prefixLoop.simps [simp del] suffixLoop.simps [simp del]
  innerLoop.simps [simp del] nodeHits.simps [simp del]

lemma prefixLoop_spec:
  "i \<le> min (length a) (length b) \<Longrightarrow> \<forall>j<i. a ! j = b ! j \<Longrightarrow>
   prefixLoop a b i \<le> min (length a) (length b)
   \<and> (\<forall>j < prefixLoop a b i. a ! j = b ! j)
   \<and> (prefixLoop a b i < min (length a) (length b) \<longrightarrow>
        a ! prefixLoop a b i \<noteq> b ! prefixLoop a b i)"
proof (induction a b i rule: prefixLoop.induct)
  case (1 a b i)
  show ?case
  proof (cases "i < min (length a) (length b)")
    case False
    then have "prefixLoop a b i = i" by (subst prefixLoop.simps) auto
    then show ?thesis using False "1.prems" by auto
  next
    case True
    note lt = this
    show ?thesis
    proof (cases "a ! i \<noteq> b ! i")
      case True
      then have "prefixLoop a b i = i" using lt by (subst prefixLoop.simps) auto
      then show ?thesis using True lt "1.prems" by auto
    next
      case False
      have "\<forall>j<i + 1. a ! j = b ! j"
        using False "1.prems"(2) by (auto simp: less_Suc_eq)
      from "1.IH" [OF lt] False this lt
      have "prefixLoop a b (i + 1) \<le> min (length a) (length b)
        \<and> (\<forall>j < prefixLoop a b (i + 1). a ! j = b ! j)
        \<and> (prefixLoop a b (i + 1) < min (length a) (length b) \<longrightarrow>
             a ! prefixLoop a b (i + 1) \<noteq> b ! prefixLoop a b (i + 1))"
        by simp
      moreover have "prefixLoop a b i = prefixLoop a b (i + 1)"
        using lt False by (subst prefixLoop.simps) auto
      ultimately show ?thesis by simp
    qed
  qed
qed

lemma commonPrefixLength_le: "commonPrefixLength a b \<le> length b"
  using prefixLoop_spec [of 0 a b] by (simp add: commonPrefixLength_def)

lemma commonPrefixLength_full:
  "commonPrefixLength a b = length b \<longleftrightarrow> prefix b a"
proof
  assume h: "commonPrefixLength a b = length b"
  from prefixLoop_spec [of 0 a b] h
  have le: "length b \<le> length a" and eq: "\<forall>j<length b. a ! j = b ! j"
    by (simp_all add: commonPrefixLength_def)
  have "take (length b) a = b"
    using le eq by (intro nth_equalityI) simp_all
  then show "prefix b a"
    by (metis take_is_prefix)
next
  assume p: "prefix b a"
  then obtain c where a: "a = b @ c" by (auto simp: prefix_def)
  let ?r = "commonPrefixLength a b"
  from prefixLoop_spec [of 0 a b]
  have le: "?r \<le> length b" and ne: "?r < min (length a) (length b) \<longrightarrow> a ! ?r \<noteq> b ! ?r"
    by (simp_all add: commonPrefixLength_def)
  show "?r = length b"
  proof (rule ccontr)
    assume "?r \<noteq> length b"
    then have lt: "?r < length b" using le by simp
    then have "a ! ?r = b ! ?r" by (simp add: a nth_append)
    moreover have "?r < min (length a) (length b)" using lt by (simp add: a)
    ultimately show False using ne by simp
  qed
qed

lemma suffixLoop_rev:
  "suffixLoop a b i = prefixLoop (rev a) (rev b) i"
proof (induction a b i rule: suffixLoop.induct)
  case (1 a b i)
  show ?case
  proof (cases "i < min (length a) (length b)")
    case False
    then show ?thesis
      by (subst suffixLoop.simps, subst prefixLoop.simps) auto
  next
    case True
    then have n: "rev a ! i = a ! (length a - 1 - i)" "rev b ! i = b ! (length b - 1 - i)"
      by (simp_all add: rev_nth)
    show ?thesis
    proof (cases "a ! (length a - 1 - i) \<noteq> b ! (length b - 1 - i)")
      case ne: True
      then show ?thesis using True n
        by (subst suffixLoop.simps, subst prefixLoop.simps) auto
    next
      case False
      with "1.IH" [OF True] have "suffixLoop a b (i + 1) = prefixLoop (rev a) (rev b) (i + 1)"
        by simp
      then show ?thesis using True False n
        by (subst suffixLoop.simps, subst prefixLoop.simps) auto
    qed
  qed
qed

lemma commonSuffixLength_le: "commonSuffixLength a b \<le> length b"
  using commonPrefixLength_le [of "rev a" "rev b"]
  by (simp add: commonSuffixLength_def commonPrefixLength_def suffixLoop_rev)

lemma commonSuffixLength_full:
  "commonSuffixLength a b = length b \<longleftrightarrow> suffix b a"
  using commonPrefixLength_full [of "rev a" "rev b"]
  by (simp add: commonSuffixLength_def commonPrefixLength_def suffixLoop_rev suffix_to_prefix)

lemma scoreAt_nonneg: "0 \<le> scoreAt before after lower idx e"
  by (simp add: scoreAt_def Let_def)

lemma scoreAt_le:
  "scoreAt before after lower idx e
   \<le> (if before \<noteq> [] then int (length before) + 50 else 0)
     + (if after \<noteq> [] then int (length after) + 50 else 0)"
  using commonSuffixLength_le [of "slice lower 0 idx" before]
    commonPrefixLength_le [of "drop e lower" after]
  by (simp add: scoreAt_def Let_def)

lemma scoreAt_max_iff:
  "scoreAt before after lower idx e
   = (if before \<noteq> [] then int (length before) + 50 else 0)
     + (if after \<noteq> [] then int (length after) + 50 else 0)
   \<longleftrightarrow> suffix before (slice lower 0 idx) \<and> prefix after (drop e lower)"
  using commonSuffixLength_le [of "slice lower 0 idx" before]
    commonPrefixLength_le [of "drop e lower" after]
    commonSuffixLength_full [of "slice lower 0 idx" before]
    commonPrefixLength_full [of "drop e lower" after]
  by (auto simp add: scoreAt_def Let_def)

lemma candAt_sel [simp]:
  "cmatch (candAt n b a nd lower idx) = \<lparr>mnode = nd, mstart = idx, mend = idx + n\<rparr>"
  "cscore (candAt n b a nd lower idx) = scoreAt b a lower idx (idx + n)"
  "cperfect (candAt n b a nd lower idx) = perfectAt b a lower idx (idx + n)"
  by (simp_all add: candAt_def)

lemma innerLoop_chooseBest:
  "innerLoop nl n b a nd lower f mc best bs
   = chooseBest (map (candAt n b a nd lower) (nodeHits nl lower f mc)) best bs"
proof (induction nl n b a nd lower f mc best bs rule: innerLoop.induct)
  case (1 nl n b a nd lower f mc best bs)
  show ?case
  proof (cases "indexOf lower nl f")
    case None
    then show ?thesis
      by (subst innerLoop.simps, subst nodeHits.simps) simp
  next
    case (Some idx)
    show ?thesis
    proof (cases "mc + 1 > 250")
      case True
      then show ?thesis using Some
        by (subst innerLoop.simps, subst nodeHits.simps) simp
    next
      case False
      note IH = "1.IH" [OF Some False refl refl refl refl]
      show ?thesis
        using Some False IH
        by (subst innerLoop.simps, subst nodeHits.simps)
           (auto simp add: Let_def)
    qed
  qed
qed

lemma chooseBest_append:
  "chooseBest (xs @ ys) best bs
   = (case chooseBest xs best bs of
        Return m \<Rightarrow> Return m
      | Continue b s \<Rightarrow> chooseBest ys b s)"
  by (induction xs arbitrary: best bs) auto

lemma nodeCandidates_skip:
  "skippable n \<Longrightarrow> nodeCandidates nl len b a n = []"
  "length (nodeValue n) < 3 \<Longrightarrow> nodeCandidates nl len b a n = []"
  by (simp_all add: nodeCandidates_def)

lemma walkLoop_chooseBest:
  "0 \<le> sc \<Longrightarrow>
   walkLoop nl len b a ns sc best bs
   = outcome (chooseBest (concat (map (nodeCandidates nl len b a) (take (nat (25000 - sc)) ns)))
                best bs)"
proof (induction ns arbitrary: sc best bs)
  case Nil
  then show ?case by simp
next
  case (Cons n ns)
  show ?case
  proof (cases "sc + 1 > 25000")
    case True
    then have "nat (25000 - sc) = 0" by simp
    then show ?thesis using True by simp
  next
    case False
    then have "nat (25000 - sc) = Suc (nat (25000 - (sc + 1)))"
      by linarith
    then have t: "take (nat (25000 - sc)) (n # ns) = n # take (nat (25000 - (sc + 1))) ns"
      by (simp only: take_Suc_Cons)
    have IH: "\<And>best bs. walkLoop nl len b a ns (sc + 1) best bs
      = outcome (chooseBest (concat (map (nodeCandidates nl len b a)
           (take (nat (25000 - (sc + 1))) ns))) best bs)"
      using Cons.IH [of "sc + 1"] Cons.prems by simp
    show ?thesis
    proof (cases "skippable n \<or> length (nodeValue n) < 3")
      case True
      then have "nodeCandidates nl len b a n = []"
        by (auto simp: nodeCandidates_skip)
      then show ?thesis using True False IH unfolding t by auto
    next
      case ok: False
      then have nc: "nodeCandidates nl len b a n
        = map (candAt len b a (nodeRef n) (toLowerCase (nodeValue n)))
            (nodeHits nl (toLowerCase (nodeValue n)) 0 0)"
        by (simp add: nodeCandidates_def)
      have ne: "nodeValue n \<noteq> []" using ok by auto
      show ?thesis
        unfolding t using ok ne False IH
        by (simp add: chooseBest_append innerLoop_chooseBest nc split: scan.split)
    qed
  qed
qed

lemma findBest_chooseBest:
  "findBestMatchInDocument e doc
   = (if length (trim (entryText e)) < 3 then None
      else outcome (chooseBest (candidates e doc) None (- 1)))"
  by (auto simp add: findBestMatchInDocument_def Let_def candidates_def walkLoop_chooseBest)

lemma chooseBest_low:
  "\<forall>c\<in>set cs. cscore c \<le> bs \<Longrightarrow> chooseBest cs best bs = Continue best bs"
  by (induction cs) auto

lemma chooseBest_spec:
  "(case chooseBest cs best bs of
      Continue b' s' \<Rightarrow>
        (b' = best \<and> s' = bs \<and> (\<forall>c\<in>set cs. cscore c \<le> bs))
        \<or> (\<exists>xs c ys. cs = xs @ c # ys \<and> b' = Some (cmatch c) \<and> s' = cscore c \<and> bs < s'
              \<and> (\<forall>x\<in>set xs. cscore x < s') \<and> (\<forall>y\<in>set ys. cscore y \<le> s'))
    | Return m \<Rightarrow>
        (\<exists>xs c ys. cs = xs @ c # ys \<and> m = cmatch c \<and> cperfect c \<and> bs < cscore c
              \<and> (\<forall>x\<in>set xs. cscore x < cscore c)))"
proof (induction cs arbitrary: best bs)
  case Nil
  show ?case by simp
next
  case (Cons c0 cs)
  show ?case
  proof (cases "cscore c0 > bs")
    case False
    then have eq: "chooseBest (c0 # cs) best bs = chooseBest cs best bs" by simp
    show ?thesis
    proof (cases "chooseBest cs best bs")
      case (Return m)
      with Cons.IH [where best = best and bs = bs] obtain xs c ys where
        "cs = xs @ c # ys" "m = cmatch c" "cperfect c" "bs < cscore c"
        "\<forall>x\<in>set xs. cscore x < cscore c"
        by auto
      then have "c0 # cs = (c0 # xs) @ c # ys \<and> m = cmatch c \<and> cperfect c \<and> bs < cscore c
        \<and> (\<forall>x\<in>set (c0 # xs). cscore x < cscore c)"
        using False by auto
      then show ?thesis unfolding eq Return by (simp only: scan.case) blast
    next
      case (Continue b' s')
      from Cons.IH [where best = best and bs = bs] Continue
      consider (same) "b' = best" "s' = bs" "\<forall>c\<in>set cs. cscore c \<le> bs"
        | (found) xs c ys where "cs = xs @ c # ys" "b' = Some (cmatch c)" "s' = cscore c"
            "bs < s'" "\<forall>x\<in>set xs. cscore x < s'" "\<forall>y\<in>set ys. cscore y \<le> s'"
        by auto
      then show ?thesis
      proof cases
        case same
        then show ?thesis unfolding eq Continue using False by simp
      next
        case found
        then have "c0 # cs = (c0 # xs) @ c # ys \<and> b' = Some (cmatch c) \<and> s' = cscore c \<and> bs < s'
          \<and> (\<forall>x\<in>set (c0 # xs). cscore x < s') \<and> (\<forall>y\<in>set ys. cscore y \<le> s')"
          using False by auto
        then show ?thesis unfolding eq Continue by (simp only: scan.case) blast
      qed
    qed
  next
    case True
    note gt = this
    show ?thesis
    proof (cases "cperfect c0")
      case True
      then have "chooseBest (c0 # cs) best bs = Return (cmatch c0)" using gt by simp
      moreover have "c0 # cs = [] @ c0 # cs" by simp
      ultimately show ?thesis using True gt
        by (simp only: scan.case) (metis empty_iff list.set(1))
    next
      case False
      then have eq: "chooseBest (c0 # cs) best bs = chooseBest cs (Some (cmatch c0)) (cscore c0)"
        using gt by simp
      show ?thesis
      proof (cases "chooseBest cs (Some (cmatch c0)) (cscore c0)")
        case (Return m)
        with Cons.IH [where best = "Some (cmatch c0)" and bs = "cscore c0"] obtain xs c ys where
          "cs = xs @ c # ys" "m = cmatch c" "cperfect c" "cscore c0 < cscore c"
          "\<forall>x\<in>set xs. cscore x < cscore c"
          by auto
        then have "c0 # cs = (c0 # xs) @ c # ys \<and> m = cmatch c \<and> cperfect c \<and> bs < cscore c
          \<and> (\<forall>x\<in>set (c0 # xs). cscore x < cscore c)"
          using gt False by auto
        then show ?thesis unfolding eq Return by (simp only: scan.case) blast
      next
        case (Continue b' s')
        from Cons.IH [where best = "Some (cmatch c0)" and bs = "cscore c0"] Continue
        consider (same) "b' = Some (cmatch c0)" "s' = cscore c0" "\<forall>c\<in>set cs. cscore c \<le> cscore c0"
          | (found) xs c ys where "cs = xs @ c # ys" "b' = Some (cmatch c)" "s' = cscore c"
              "cscore c0 < s'" "\<forall>x\<in>set xs. cscore x < s'" "\<forall>y\<in>set ys. cscore y \<le> s'"
          by auto
        then show ?thesis
        proof cases
          case same
          then have "c0 # cs = [] @ c0 # cs \<and> b' = Some (cmatch c0) \<and> s' = cscore c0 \<and> bs < s'
            \<and> (\<forall>x\<in>set []. cscore x < s') \<and> (\<forall>y\<in>set cs. cscore y \<le> s')"
            using gt by simp
          then show ?thesis unfolding eq Continue by (simp only: scan.case) blast
        next
          case found
          then have "c0 # cs = (c0 # xs) @ c # ys \<and> b' = Some (cmatch c) \<and> s' = cscore c \<and> bs < s'
            \<and> (\<forall>x\<in>set (c0 # xs). cscore x < s') \<and> (\<forall>y\<in>set ys. cscore y \<le> s')"
            using gt by auto
          then show ?thesis unfolding eq Continue by (simp only: scan.case) blast
        qed
      qed
    qed
  qed
qed

lemma nodeHits_length:
  "0 \<le> mc \<Longrightarrow> length (nodeHits nl lower f mc) \<le> nat (250 - mc)"
proof (induction nl lower f mc rule: nodeHits.induct)
  case (1 nl lower f mc)
  show ?case
  proof (cases "indexOf lower nl f")
    case None
    then show ?thesis by (subst nodeHits.simps) simp
  next
    case (Some idx)
    show ?thesis
    proof (cases "mc + 1 > 250")
      case True
      then show ?thesis using Some by (subst nodeHits.simps) simp
    next
      case False
      show ?thesis
      proof (cases "idx + max 1 (length nl) \<ge> length lower")
        case True
        then show ?thesis using Some False "1.prems" by (subst nodeHits.simps) simp
      next
        case nx: False
        from "1.IH" [OF Some False nx] "1.prems"
        have "length (nodeHits nl lower (idx + max 1 (length nl)) (mc + 1)) \<le> nat (250 - (mc + 1))"
          by simp
        then show ?thesis using Some False nx "1.prems"
          by (subst nodeHits.simps) simp
      qed
    qed
  qed
qed

lemma candAt_score:
  "0 \<le> cscore (candAt n b a nd lower idx)"
  "cscore (candAt n b a nd lower idx) \<le> maxScore b a"
  "cperfect (candAt n b a nd lower idx)
   \<longleftrightarrow> b \<noteq> [] \<and> a \<noteq> [] \<and> cscore (candAt n b a nd lower idx) = maxScore b a"
  using scoreAt_le [of b a lower idx "idx + n"] scoreAt_max_iff [of b a lower idx "idx + n"]
  by (auto simp add: scoreAt_nonneg maxScore_def perfectAt_def)

lemma nodeCandidates_elem:
  "c \<in> set (nodeCandidates nl n b a nd) \<Longrightarrow>
   \<exists>idx. c = candAt n b a (nodeRef nd) (toLowerCase (nodeValue nd)) idx"
  by (auto simp add: nodeCandidates_def split: if_splits)

lemma candidates_elem:
  "c \<in> set (candidates e doc) \<Longrightarrow>
   \<exists>nd lower idx. c = candAt (length (trim (entryText e))) (toLowerCase (contextBefore e))
       (toLowerCase (contextAfter e)) nd lower idx"
  unfolding candidates_def by (auto dest!: nodeCandidates_elem)

lemma candidates_score:
  assumes "c \<in> set (candidates e doc)"
  shows "0 \<le> cscore c"
    and "cscore c \<le> maxScore (toLowerCase (contextBefore e)) (toLowerCase (contextAfter e))"
    and "cperfect c \<longleftrightarrow> toLowerCase (contextBefore e) \<noteq> [] \<and> toLowerCase (contextAfter e) \<noteq> []
         \<and> cscore c = maxScore (toLowerCase (contextBefore e)) (toLowerCase (contextAfter e))"
  using candidates_elem [OF assms] candAt_score by metis+

lemma choose_none_iff:
  assumes "\<forall>c\<in>set cs. 0 \<le> cscore c"
  shows "outcome (chooseBest cs None (- 1)) = None \<longleftrightarrow> cs = []"
proof
  assume "cs = []" then show "outcome (chooseBest cs None (- 1)) = None" by simp
next
  assume n: "outcome (chooseBest cs None (- 1)) = None"
  show "cs = []"
  proof (cases "chooseBest cs None (- 1)")
    case (Return m)
    then show ?thesis using n by simp
  next
    case (Continue b' s')
    with n have "b' = None" by simp
    with chooseBest_spec [where cs = cs and best = None and bs = "- 1"] Continue
    have "\<forall>c\<in>set cs. cscore c \<le> - 1" by auto
    with assms show ?thesis by (cases cs) fastforce+
  qed
qed

lemma choose_some_max:
  assumes "\<forall>c\<in>set cs. cperfect c \<longrightarrow> (\<forall>y\<in>set cs. cscore y \<le> cscore c)"
    and "outcome (chooseBest cs best bs) = Some m" and "best = None"
  shows "\<exists>xs c ys. cs = xs @ c # ys \<and> m = cmatch c
     \<and> (\<forall>x\<in>set xs. cscore x < cscore c) \<and> (\<forall>y\<in>set ys. cscore y \<le> cscore c)"
proof (cases "chooseBest cs best bs")
  case (Return m')
  with assms(2) have m: "m' = m" by simp
  from chooseBest_spec [where cs = cs and best = best and bs = bs] Return obtain xs c ys where
    d: "cs = xs @ c # ys" "m' = cmatch c" "cperfect c" "\<forall>x\<in>set xs. cscore x < cscore c"
    by auto
  have "c \<in> set cs" using d(1) by simp
  with assms(1) d(3) have "\<forall>y\<in>set cs. cscore y \<le> cscore c" by blast
  then have "\<forall>y\<in>set ys. cscore y \<le> cscore c" using d(1) by simp
  with d m show ?thesis by blast
next
  case (Continue b' s')
  with assms(2) have "b' = Some m" by simp
  with chooseBest_spec [where cs = cs and best = best and bs = bs] Continue assms(3)
  obtain xs c ys where "cs = xs @ c # ys" "Some m = Some (cmatch c)" "s' = cscore c"
    "\<forall>x\<in>set xs. cscore x < s'" "\<forall>y\<in>set ys. cscore y \<le> s'"
    by auto
  then show ?thesis by blast
qed


















lemma findAt_prefix: "prefix needle hay \<Longrightarrow> findAt needle hay i = Some i"
  by (cases hay) simp_all

lemma drop_repeat:
  "i \<le> k \<Longrightarrow> drop (i * length w) (concat (replicate k w)) = concat (replicate (k - i) w)"
proof (induction i arbitrary: k)
  case 0
  show ?case by simp
next
  case (Suc i)
  then obtain k' where k: "k = Suc k'" by (cases k) simp_all
  with Suc.prems have "i \<le> k'" by simp
  from Suc.IH [OF this] show ?case
    unfolding k by (simp add: add.commute [of "length w"] flip: drop_drop)
qed

lemma length_repeat: "length (concat (replicate k w)) = k * length w"
  by (induction k) simp_all

lemma indexOf_repeat:
  assumes "i < k"
  shows "indexOf (concat (replicate k w)) w (i * length w) = Some (i * length w)"
proof -
  have le: "i * length w \<le> k * length w" using assms by simp
  obtain d where d: "k - i = Suc d" using assms by (cases "k - i") simp_all
  have "drop (i * length w) (concat (replicate k w)) = w @ concat (replicate d w)"
    using drop_repeat [of i k w] assms d by simp
  then have "prefix w (drop (i * length w) (concat (replicate k w)))" by simp
  then show ?thesis
    using le by (simp add: indexOf_def length_repeat min_def findAt_prefix)
qed

lemma nodeHits_repeat:
  assumes "w \<noteq> []" and "250 < k"
  shows "i \<le> 250 \<Longrightarrow>
         nodeHits w (concat (replicate k w)) (i * length w) (int i)
         = map (\<lambda>j. j * length w) [i..<250]"
proof (induction "250 - i" arbitrary: i)
  case 0
  then have i: "i = 250" by simp
  have "indexOf (concat (replicate k w)) w (i * length w) = Some (i * length w)"
    using assms(2) i by (intro indexOf_repeat) simp
  then show ?case
    using i by (subst nodeHits.simps) simp
next
  case (Suc d)
  then have i: "i < 250" by simp
  have n1: "1 \<le> length w" using assms(1) by (cases w) simp_all
  have ix: "indexOf (concat (replicate k w)) w (i * length w) = Some (i * length w)"
    using assms(2) i by (intro indexOf_repeat) simp
  have "Suc i < k" "0 < length w" using i assms by simp_all
  then have "Suc i * length w < k * length w"
    by (simp only: mult_less_cancel2)
  then have nx: "\<not> i * length w + max 1 (length w) \<ge> length (concat (replicate k w))"
    using n1 by (simp add: length_repeat max_def)
  have "nodeHits w (concat (replicate k w)) (Suc i * length w) (int (Suc i))
        = map (\<lambda>j. j * length w) [Suc i..<250]"
    using Suc.hyps(1) [of "Suc i"] Suc.hyps(2) i by simp
  moreover have "i * length w + max 1 (length w) = Suc i * length w"
    using n1 by (simp add: max_def)
  moreover have "int i + 1 = int (Suc i)" by simp
  ultimately have r: "nodeHits w (concat (replicate k w)) (i * length w + max 1 (length w)) (int i + 1)
        = map (\<lambda>j. j * length w) [Suc i..<250]"
    by (simp only:)
  have "nodeHits w (concat (replicate k w)) (i * length w) (int i)
        = i * length w # map (\<lambda>j. j * length w) [Suc i..<250]"
    using ix i nx r by (subst nodeHits.simps) simp
  then show ?case using i by (simp add: upt_conv_Cons)
qed

lemma toLowerCase_repeat:
  "toLowerCase (concat (replicate k w)) = concat (replicate k (toLowerCase w))"
  by (simp add: toLowerCase_def map_concat)

lemma score_without_context_char:
  assumes "c \<notin> set lower"
  shows "scoreAt [c] [] lower idx e = 0"
proof -
  have "\<not> suffix [c] (slice lower 0 idx)"
  proof
    assume "suffix [c] (slice lower 0 idx)"
    then have "c \<in> set (slice lower 0 idx)" by (auto simp add: suffix_def)
    then have "c \<in> set lower" by (auto simp add: slice_def dest: in_set_takeD)
    with assms show False by simp
  qed
  moreover from this have "commonSuffixLength (slice lower 0 idx) [c] \<noteq> length [c]"
    using commonSuffixLength_full [of "slice lower 0 idx" "[c]"] by simp
  moreover have "commonSuffixLength (slice lower 0 idx) [c] \<le> length [c]"
    by (rule commonSuffixLength_le)
  ultimately show ?thesis by (simp add: scoreAt_def Let_def)
qed

lemma capped_node_scan:
  "innerLoop ''abc'' 3 ''x'' [] [0, 0] (concat (replicate 251 ''abc'')) 0 0 None (- 1)
   = Continue (Some \<lparr>mnode = [0, 0], mstart = 0, mend = 3\<rparr>) 0"
proof -
  let ?L = "concat (replicate 251 ''abc'')"
  have h: "nodeHits ''abc'' ?L 0 0 = map (\<lambda>j. j * 3) [0..<250]"
    using nodeHits_repeat [of "''abc''" 251 0] by simp
  have x: "CHR ''x'' \<notin> set ?L" by simp
  have sc: "\<And>idx. cscore (candAt 3 ''x'' [] [0, 0] ?L idx) = 0"
    using score_without_context_char [OF x] by simp
  have np: "\<And>idx. \<not> cperfect (candAt 3 ''x'' [] [0, 0] ?L idx)"
    by (simp add: perfectAt_def)
  have "[0..<250] = 0 # [1..<250]" by (simp add: upt_conv_Cons)
  then have h': "nodeHits ''abc'' ?L 0 0 = 0 # map (\<lambda>j. j * 3) [1..<250]"
    unfolding h by simp
  have low: "\<forall>c\<in>set (map (candAt 3 ''x'' [] [0, 0] ?L) (map (\<lambda>j. j * 3) [1..<250])). cscore c \<le> 0"
    using sc by auto
  have s0: "scoreAt ''x'' [] ?L 0 3 = 0"
    by (rule score_without_context_char [OF x])
  have p0: "\<not> perfectAt ''x'' [] ?L 0 3"
    by (simp add: perfectAt_def)
  show ?thesis
    unfolding innerLoop_chooseBest h'
    using chooseBest_low [OF low] by (simp add: s0 p0)
qed

theorem scan_caps_counterexample:
  "findBestMatchInDocument
     \<lparr>entryId = ''q1'', entryText = ''abc'', contextBefore = ''x'', contextAfter = ''''\<rparr>
     (Element ''body'' [] None
        [Element ''p'' [] None [TextNode (concat (replicate 251 ''abc''))],
         Element ''p'' [] None [TextNode ''xabc'']])
   = Some \<lparr>mnode = [1, 0], mstart = 1, mend = 4\<rparr>
   \<and> length (nodeHits ''abc'' (concat (replicate 251 ''abc'')) 0 0) = 250
   \<and> indexOf (concat (replicate 251 ''abc'')) ''abc'' 750 = Some 750"
proof -
  let ?L = "concat (replicate 251 ''abc'')"
  have w: "walker (Element ''body'' [] None
        [Element ''p'' [] None [TextNode ?L], Element ''p'' [] None [TextNode ''xabc'']])
    = [\<lparr>nodeRef = [0, 0], nodeValue = ?L, skippable = False\<rparr>,
       \<lparr>nodeRef = [1, 0], nodeValue = ''xabc'', skippable = False\<rparr>]"
    by (simp add: walker_def skipTags_def)
  have t: "trim ''abc'' = ''abc''" by code_simp
  have l: "toLowerCase ''abc'' = ''abc''" "toLowerCase ''x'' = ''x''" "toLowerCase [] = []"
    "toLowerCase ''xabc'' = ''xabc''"
    by code_simp+
  have lL: "toLowerCase ?L = ?L"
    by (simp only: toLowerCase_repeat l)
  have len: "length ?L = 753" by (simp add: length_repeat)
  have i2: "innerLoop ''abc'' 3 ''x'' [] [1, 0] ''xabc'' 0 0
      (Some \<lparr>mnode = [0, 0], mstart = 0, mend = 3\<rparr>) 0
    = Continue (Some \<lparr>mnode = [1, 0], mstart = 1, mend = 4\<rparr>) 51"
    by code_simp
  have 1: "findBestMatchInDocument
     \<lparr>entryId = ''q1'', entryText = ''abc'', contextBefore = ''x'', contextAfter = ''''\<rparr>
     (Element ''body'' [] None
        [Element ''p'' [] None [TextNode ?L], Element ''p'' [] None [TextNode ''xabc'']])
   = Some \<lparr>mnode = [1, 0], mstart = 1, mend = 4\<rparr>"
  proof -
    have n: "length ''abc'' = 3" by simp
    have wl: "walkLoop ''abc'' 3 ''x'' []
        [\<lparr>nodeRef = [0, 0], nodeValue = ?L, skippable = False\<rparr>,
         \<lparr>nodeRef = [1, 0], nodeValue = ''xabc'', skippable = False\<rparr>] 0 None (- 1)
      = Some \<lparr>mnode = [1, 0], mstart = 1, mend = 4\<rparr>"
      by (simp add: l lL len capped_node_scan i2 del: One_nat_def)
    show ?thesis
      by (simp only: findBestMatchInDocument_def Let_def entry.select_convs t n l w wl) simp
  qed
  have 2: "length (nodeHits ''abc'' ?L 0 0) = 250"
    using nodeHits_repeat [of "''abc''" 251 0] by simp
  have 3: "indexOf ?L ''abc'' 750 = Some 750"
    using indexOf_repeat [of 250 251 "''abc''"] by simp
  from 1 2 3 show ?thesis by (intro conjI)
qed

lemma walkLoop_take:
  "walkLoop nl n b a ns 0 best bs = walkLoop nl n b a (take 25000 ns) 0 best bs"
  by (simp add: walkLoop_chooseBest)

lemma nodeCandidates_length: "length (nodeCandidates nl n b a nd) \<le> 250"
  using nodeHits_length [of 0 nl "toLowerCase (nodeValue nd)" 0]
  by (simp add: nodeCandidates_def)

text \<open>
  C5. At most 250 occurrences are scored in one text node, and text nodes after the
  25,000th of the walk are not read. Reaching the limit of 250 ends the scan of that
  node only: the occurrences scored are those of the first 25,000 text nodes, up to
  250 in each, and the Locator returns one of highest score among them, or no match
  when there is none. Reaching the limit of 25,000 ends the walk.
\<close>

theorem scan_caps:
  "length (nodeCandidates nl n b a nd) \<le> 250
   \<and> walkLoop nl n b a ns 0 best bs = walkLoop nl n b a (take 25000 ns) 0 best bs
   \<and> candidates e doc
       = concat (map (nodeCandidates (toLowerCase (trim (entryText e)))
                        (length (trim (entryText e)))
                        (toLowerCase (contextBefore e)) (toLowerCase (contextAfter e)))
                   (take 25000 (walker doc)))
   \<and> (findBestMatchInDocument e doc = None
        \<longleftrightarrow> length (trim (entryText e)) < 3 \<or> candidates e doc = [])
   \<and> (\<forall>m. findBestMatchInDocument e doc = Some m \<longrightarrow>
          (\<exists>c\<in>set (candidates e doc). m = cmatch c
             \<and> (\<forall>c'\<in>set (candidates e doc). cscore c' \<le> cscore c)))"
proof (intro conjI allI impI)
  show "length (nodeCandidates nl n b a nd) \<le> 250" by (rule nodeCandidates_length)
  show "walkLoop nl n b a ns 0 best bs = walkLoop nl n b a (take 25000 ns) 0 best bs"
    by (rule walkLoop_take)
  show "candidates e doc
       = concat (map (nodeCandidates (toLowerCase (trim (entryText e)))
                        (length (trim (entryText e)))
                        (toLowerCase (contextBefore e)) (toLowerCase (contextAfter e)))
                   (take 25000 (walker doc)))"
    by (simp only: candidates_def)
  have nonneg: "\<forall>c\<in>set (candidates e doc). 0 \<le> cscore c"
    using candidates_score(1) by blast
  show "findBestMatchInDocument e doc = None
        \<longleftrightarrow> length (trim (entryText e)) < 3 \<or> candidates e doc = []"
    using choose_none_iff [OF nonneg] by (simp add: findBest_chooseBest)
  fix m assume m: "findBestMatchInDocument e doc = Some m"
  then have f: "outcome (chooseBest (candidates e doc) None (- 1)) = Some m"
    by (simp add: findBest_chooseBest split: if_splits)
  have perfect_max: "\<forall>c\<in>set (candidates e doc). cperfect c \<longrightarrow>
      (\<forall>y\<in>set (candidates e doc). cscore y \<le> cscore c)"
    using candidates_score(2,3) by metis
  from choose_some_max [OF perfect_max f refl] obtain xs c ys where
    d: "candidates e doc = xs @ c # ys" "m = cmatch c"
      "\<forall>x\<in>set xs. cscore x < cscore c" "\<forall>y\<in>set ys. cscore y \<le> cscore c"
    by blast
  have "c \<in> set (candidates e doc)" using d(1) by simp
  moreover have "\<forall>c'\<in>set (candidates e doc). cscore c' \<le> cscore c"
    using d(3,4) unfolding d(1) by (auto intro: less_imp_le)
  ultimately show "\<exists>c\<in>set (candidates e doc). m = cmatch c
             \<and> (\<forall>c'\<in>set (candidates e doc). cscore c' \<le> cscore c)"
    using d(2) by blast
qed

lemma scenario_result:
  "findBestMatchInDocument
     \<lparr>entryId = ''q1'', entryText = ''hello world'', contextBefore = ''say '',
      contextAfter = '' today''\<rparr>
     (Element ''body'' [] None [TextNode ''oh hello world! and say hello world today''])
   = Some \<lparr>mnode = [0], mstart = 24, mend = 35\<rparr>"
  by code_simp

theorem scan_caps_witness:
  "findBestMatchInDocument
     \<lparr>entryId = ''q1'', entryText = ''hello world'', contextBefore = ''say '',
      contextAfter = '' today''\<rparr>
     (Element ''body'' [] None [TextNode ''oh hello world! and say hello world today''])
   = Some \<lparr>mnode = [0], mstart = 24, mend = 35\<rparr>
   \<and> (\<exists>c\<in>set (candidates
          \<lparr>entryId = ''q1'', entryText = ''hello world'', contextBefore = ''say '',
           contextAfter = '' today''\<rparr>
          (Element ''body'' [] None [TextNode ''oh hello world! and say hello world today''])).
        \<lparr>mnode = [0], mstart = 24, mend = 35\<rparr> = cmatch c
        \<and> (\<forall>c'\<in>set (candidates
              \<lparr>entryId = ''q1'', entryText = ''hello world'', contextBefore = ''say '',
               contextAfter = '' today''\<rparr>
              (Element ''body'' [] None [TextNode ''oh hello world! and say hello world today''])).
             cscore c' \<le> cscore c))"
  using scan_caps [THEN conjunct2, THEN conjunct2, THEN conjunct2, THEN conjunct2, rule_format,
      OF scenario_result] scenario_result
  by (intro conjI)




end
